theory Spec2Isabelle
  imports Main "HOL-Library.Multiset"
begin

section \<open>The fan-out/fan-in executor of concurrent.go\<close>

text \<open>
  \<^verbatim>\<open>Execute\<close> (concurrent.go, lines 10-54) starts \<open>numOfRoutines\<close> worker goroutines,
  one distributor goroutine and one goroutine that closes the output channel, and then
  collects the results itself. All channels are unbuffered, so a send happens together
  with the matching receive. The model is a transition system: a state holds the
  program point of every goroutine and the state of the channels and of the WaitGroup,
  and one event is one step of one goroutine (a hand-off over a channel is one step of
  the two goroutines that meet there). A schedule is a list of events; a statement about
  every schedule is a statement about every interleaving the Go scheduler may choose.
\<close>

subsection \<open>Data\<close>

text \<open>
  The program point of a worker (lines 23-28):
  \<^item> \<open>WRecv\<close>: at \<^verbatim>\<open>for input := range inputChan\<close>, waiting for an item or for the close;
  \<^item> \<open>WCall x\<close>: has received \<open>x\<close>, about to evaluate \<^verbatim>\<open>process(input)\<close>;
  \<^item> \<open>WSend y\<close>: holds the result \<open>y\<close>, blocked in \<^verbatim>\<open>outputChan <- y\<close>;
  \<^item> \<open>WDone\<close>: left the loop, the deferred \<^verbatim>\<open>wg.Done()\<close> has run.
\<close>

datatype ('a, 'b) worker = WRecv | WCall 'a | WSend 'b | WDone

text \<open>
  The run-time panics of the Go operations that \<^verbatim>\<open>Execute\<close> performs, and the fatal error
  of the runtime when it cannot get the memory it needs.
\<close>

datatype panic =
    MakesliceLenOutOfRange
  | IntegerDivideByZero
  | SendOnClosedChannel
  | CloseOfClosedChannel
  | NegativeWaitGroupCounter
  | OutOfMemory

text \<open>
  The state of one call. \<open>next_input\<close> is the index \<^verbatim>\<open>i\<close> of the distributor's first
  loop (line 33), \<open>next_close\<close> the index of its second loop (line 37); \<open>in_closed ! k\<close>
  says whether \<^verbatim>\<open>inputChannels[k]\<close> is closed; \<open>wg\<close> is the WaitGroup counter;
  \<open>out_closed\<close> says whether \<^verbatim>\<open>outputChannel\<close> is closed (then the goroutine of
  lines 42-45 has finished); \<open>outputs\<close> is the slice of line 48; \<open>returned\<close> says
  whether line 53 has been reached. \<open>calls\<close> is a history variable that is not in the
  code: it records every evaluation of \<^verbatim>\<open>process\<close>, as the pair of the worker's number
  and the argument. \<open>panicked\<close> holds the panic that has stopped the program, if any.
\<close>

record ('a, 'b) state =
  workers :: "('a, 'b) worker list"
  in_closed :: "bool list"
  next_input :: nat
  next_close :: nat
  wg :: int
  out_closed :: bool
  outputs :: "'b list"
  returned :: bool
  calls :: "(nat \<times> 'a) list"
  panicked :: "panic option"

subsection \<open>Lines 11-48: set-up by the calling goroutine\<close>

text \<open>
  \<^verbatim>\<open>make([](chan TypeIn), numOfRoutines)\<close> panics with \<^verbatim>\<open>makeslice: len out of range\<close> when
  the length is negative or beyond the longest slice the runtime allows. That bound is not in
  the repository; it is the runtime's: on a 64-bit platform, with 48 bits of address space and
  8 bytes for a channel value, \<^verbatim>\<open>make\<close> accepts \<open>2^45\<close> channel values and no more.
\<close>

definition makeslice_max_len :: int where
  "makeslice_max_len = 2 ^ 45"

text \<open>
  Below that bound the set-up still needs the memory for the slice, the channels and the
  goroutines, and the runtime stops the program when it cannot get it. How many workers the
  machine has the memory for is not in the repository either; it is the parameter
  \<open>max_workers\<close> of the set-up. The range of the counter of the WaitGroup is not part of the
  model.

  When the set-up succeeds the channels are made, the counter is set by
  \<^verbatim>\<open>wg.Add(numOfRoutines)\<close>, and the goroutines are spawned. None of them can communicate with
  the calling goroutine before it reaches line 49 (all they can do towards it is block in a
  send on the output channel), so the state after the set-up is the initial state of the
  transition system.
\<close>

definition spawned :: "nat \<Rightarrow> ('a, 'b) state" where
  "spawned n =
     \<lparr> workers = replicate n WRecv,
       in_closed = replicate n False,
       next_input = 0,
       next_close = 0,
       wg = int n,
       out_closed = False,
       outputs = [],
       returned = False,
       calls = [],
       panicked = None \<rparr>"

definition Execute_start :: "nat \<Rightarrow> int \<Rightarrow> panic + ('a, 'b) state" where
  "Execute_start max_workers numOfRoutines =
     (if numOfRoutines < 0 \<or> makeslice_max_len < numOfRoutines then Inl MakesliceLenOutOfRange
      else if int max_workers < numOfRoutines then Inl OutOfMemory
      else Inr (spawned (nat numOfRoutines)))"

subsection \<open>The steps of the goroutines\<close>

text \<open>
  Every step is a partial function on states: \<open>None\<close> means that the goroutine is not at
  that program point or is blocked there. The parameters \<open>n\<close>, \<open>inputs\<close> and \<open>process\<close>
  are the variables \<^verbatim>\<open>numOfRoutines\<close>, \<^verbatim>\<open>inputs\<close> and \<^verbatim>\<open>process\<close> that the goroutines
  capture.
\<close>

text \<open>
  Lines 33-35, the distributor hands \<^verbatim>\<open>inputs[i]\<close> to the worker \<^verbatim>\<open>i % numOfRoutines\<close>.
  The remainder panics when \<^verbatim>\<open>numOfRoutines\<close> is zero; the send panics on a closed
  channel and otherwise waits until that worker is at its receive.
\<close>

definition distribute :: "nat \<Rightarrow> 'a list \<Rightarrow> ('a, 'b) state \<Rightarrow> ('a, 'b) state option" where
  "distribute n inputs s =
     (if next_input s < length inputs then
        (if n = 0 then Some (s\<lparr>panicked := Some IntegerDivideByZero\<rparr>)
         else
           let channel = next_input s mod n in
           if in_closed s ! channel then Some (s\<lparr>panicked := Some SendOnClosedChannel\<rparr>)
           else if workers s ! channel = WRecv then
             Some (s\<lparr>workers := (workers s)[channel := WCall (inputs ! next_input s)],
                     next_input := next_input s + 1\<rparr>)
           else None)
      else None)"

text \<open>
  Lines 37-39, after the first loop the distributor closes the input channels one by one.
\<close>

definition close_input :: "'a list \<Rightarrow> ('a, 'b) state \<Rightarrow> ('a, 'b) state option" where
  "close_input inputs s =
     (if \<not> next_input s < length inputs \<and> next_close s < length (in_closed s) then
        (if in_closed s ! next_close s then Some (s\<lparr>panicked := Some CloseOfClosedChannel\<rparr>)
         else Some (s\<lparr>in_closed := (in_closed s)[next_close s := True],
                      next_close := next_close s + 1\<rparr>))
      else None)"

text \<open>Line 26, worker \<open>k\<close> evaluates \<^verbatim>\<open>process(input)\<close>.\<close>

definition call_process :: "('a \<Rightarrow> 'b) \<Rightarrow> nat \<Rightarrow> ('a, 'b) state \<Rightarrow> ('a, 'b) state option" where
  "call_process process k s =
     (if k < length (workers s) then
        (case workers s ! k of
           WCall x \<Rightarrow> Some (s\<lparr>workers := (workers s)[k := WSend (process x)],
                              calls := calls s @ [(k, x)]\<rparr>)
         | _ \<Rightarrow> None)
      else None)"

text \<open>
  Line 26 meets lines 49-50: worker \<open>k\<close> sends its result, the calling goroutine receives
  it and appends it to \<^verbatim>\<open>outputs\<close>. The send panics when the output channel is closed.
\<close>

definition emit :: "nat \<Rightarrow> ('a, 'b) state \<Rightarrow> ('a, 'b) state option" where
  "emit k s =
     (if k < length (workers s) then
        (case workers s ! k of
           WSend y \<Rightarrow>
             if out_closed s then Some (s\<lparr>panicked := Some SendOnClosedChannel\<rparr>)
             else if returned s then None
             else Some (s\<lparr>workers := (workers s)[k := WRecv],
                         outputs := outputs s @ [y]\<rparr>)
         | _ \<Rightarrow> None)
      else None)"

text \<open>
  Lines 25 and 24: worker \<open>k\<close> finds its input channel closed, leaves the loop and runs
  \<^verbatim>\<open>wg.Done()\<close>, which panics when the counter would become negative.
\<close>

definition worker_exit :: "nat \<Rightarrow> ('a, 'b) state \<Rightarrow> ('a, 'b) state option" where
  "worker_exit k s =
     (if k < length (workers s) \<and> k < length (in_closed s)
         \<and> workers s ! k = WRecv \<and> in_closed s ! k then
        (if wg s \<le> 0 then Some (s\<lparr>panicked := Some NegativeWaitGroupCounter\<rparr>)
         else Some (s\<lparr>workers := (workers s)[k := WDone], wg := wg s - 1\<rparr>))
      else None)"

text \<open>Lines 43-44: \<^verbatim>\<open>wg.Wait()\<close> returns once the counter is zero; then the output channel is closed.\<close>

definition close_output :: "('a, 'b) state \<Rightarrow> ('a, 'b) state option" where
  "close_output s =
     (if wg s = 0 \<and> \<not> out_closed s then Some (s\<lparr>out_closed := True\<rparr>) else None)"

text \<open>Lines 49 and 53: the calling goroutine finds the output channel closed and returns \<^verbatim>\<open>outputs\<close>.\<close>

definition return_outputs :: "('a, 'b) state \<Rightarrow> ('a, 'b) state option" where
  "return_outputs s =
     (if out_closed s \<and> \<not> returned s then Some (s\<lparr>returned := True\<rparr>) else None)"

subsection \<open>Schedules\<close>

datatype event = Distribute | CloseInput | Call nat | Emit nat | Exit nat | CloseOutput | Return

text \<open>A panic in any goroutine ends the program: nothing runs after it.\<close>

definition fire ::
  "nat \<Rightarrow> 'a list \<Rightarrow> ('a \<Rightarrow> 'b) \<Rightarrow> event \<Rightarrow> ('a, 'b) state \<Rightarrow> ('a, 'b) state option" where
  "fire n inputs process e s =
     (if panicked s \<noteq> None then None
      else case e of
          Distribute \<Rightarrow> distribute n inputs s
        | CloseInput \<Rightarrow> close_input inputs s
        | Call k \<Rightarrow> call_process process k s
        | Emit k \<Rightarrow> emit k s
        | Exit k \<Rightarrow> worker_exit k s
        | CloseOutput \<Rightarrow> close_output s
        | Return \<Rightarrow> return_outputs s)"

primrec run ::
  "nat \<Rightarrow> 'a list \<Rightarrow> ('a \<Rightarrow> 'b) \<Rightarrow> event list \<Rightarrow> ('a, 'b) state \<Rightarrow> ('a, 'b) state option" where
  "run n inputs process [] s = Some s"
| "run n inputs process (e # es) s =
     (case fire n inputs process e s of
        None \<Rightarrow> None
      | Some s' \<Rightarrow> run n inputs process es s')"

text \<open>The events that can be tried in a state with \<open>n\<close> workers, as a finite list.\<close>

definition all_events :: "nat \<Rightarrow> event list" where
  "all_events n =
     [Distribute, CloseInput, CloseOutput, Return]
       @ map Call [0..<n] @ map Emit [0..<n] @ map Exit [0..<n]"

subsection \<open>The call as a whole\<close>

text \<open>
  The outcome of a call, on a machine that has the memory for \<open>max_workers\<close> workers, under
  the schedule \<open>es\<close>: \<open>Inl p\<close> when the set-up fails,
  \<open>Inr None\<close> when the goroutines cannot take the steps of \<open>es\<close> in that order, and
  \<open>Inr (Some s)\<close> when they can and reach the state \<open>s\<close>. The call has returned to its
  caller in \<open>s\<close> when \<open>returned s\<close> holds, and \<open>outputs s\<close> is then the slice it returned.
\<close>

definition Execute ::
  "nat \<Rightarrow> int \<Rightarrow> 'a list \<Rightarrow> ('a \<Rightarrow> 'b) \<Rightarrow> event list \<Rightarrow> panic + ('a, 'b) state option" where
  "Execute max_workers numOfRoutines inputs process es =
     (case Execute_start max_workers numOfRoutines of
        Inl p \<Rightarrow> Inl p
      | Inr s \<Rightarrow> Inr (run (nat numOfRoutines) inputs process es s))"

subsection \<open>Invariants and measures\<close>

text \<open>A worker counts in the WaitGroup until it has run \<^verbatim>\<open>wg.Done()\<close>.\<close>

fun alive :: "('a, 'b) worker \<Rightarrow> nat" where
  "alive WDone = 0"
| "alive _ = 1"

text \<open>
  The facts about the control state that hold in every state a call with \<open>n\<close> workers can
  reach, as long as \<open>n\<close> is positive or there are no inputs: the distributor closes
  channels only after its first loop and in order, a worker has finished only if its
  channel is closed, the counter is the number of workers that have not finished, the
  output channel is closed only when the counter is zero, the call returns only after
  that, and nothing has panicked.
\<close>

definition consistent :: "nat \<Rightarrow> 'a list \<Rightarrow> ('a, 'b) state \<Rightarrow> bool" where
  "consistent n inputs s \<longleftrightarrow>
     length (workers s) = n \<and> length (in_closed s) = n \<and>
     next_input s \<le> length inputs \<and> next_close s \<le> n \<and>
     (next_input s < length inputs \<longrightarrow> next_close s = 0) \<and>
     (\<forall>k<n. in_closed s ! k \<longleftrightarrow> k < next_close s) \<and>
     (\<forall>k<n. workers s ! k = WDone \<longrightarrow> in_closed s ! k) \<and>
     wg s = int (sum_list (map alive (workers s))) \<and>
     (out_closed s \<longrightarrow> wg s = 0) \<and>
     (returned s \<longrightarrow> out_closed s) \<and>
     panicked s = None"

text \<open>The item a worker has received and not yet passed to \<^verbatim>\<open>process\<close>.\<close>

fun pend_in :: "('a, 'b) worker \<Rightarrow> 'a list" where
  "pend_in (WCall x) = [x]"
| "pend_in _ = []"

text \<open>The result a worker still owes to the output channel.\<close>

fun pend_out :: "('a \<Rightarrow> 'b) \<Rightarrow> ('a, 'b) worker \<Rightarrow> 'b list" where
  "pend_out process (WCall x) = [process x]"
| "pend_out process (WSend y) = [y]"
| "pend_out process _ = []"

text \<open>The number of steps a worker can still take without receiving a new item.\<close>

fun weight :: "('a, 'b) worker \<Rightarrow> nat" where
  "weight WDone = 0"
| "weight WRecv = 1"
| "weight (WSend y) = 2"
| "weight (WCall x) = 3"

text \<open>The number of steps that are left before nothing can run any more.\<close>

definition remaining :: "'a list \<Rightarrow> ('a, 'b) state \<Rightarrow> nat" where
  "remaining inputs s =
     3 * (length inputs - next_input s) + sum_list (map weight (workers s))
       + (length (in_closed s) - next_close s)
       + (if out_closed s then 0 else 1) + (if returned s then 0 else 1)"

text \<open>
  Every item handed out so far is accounted for: its result is in \<open>outputs\<close> or still
  with a worker, and it has been passed to \<^verbatim>\<open>process\<close> or is still waiting with a worker.
\<close>

definition accounted :: "'a list \<Rightarrow> ('a \<Rightarrow> 'b) \<Rightarrow> ('a, 'b) state \<Rightarrow> bool" where
  "accounted inputs process s \<longleftrightarrow>
     mset (outputs s) + sum_list (map (\<lambda>w. mset (pend_out process w)) (workers s))
       = mset (map process (take (next_input s) inputs)) \<and>
     mset (map snd (calls s)) + sum_list (map (\<lambda>w. mset (pend_in w)) (workers s))
       = mset (take (next_input s) inputs)"

text \<open>The arguments of the calls of \<^verbatim>\<open>process\<close> that worker \<open>k\<close> has made, in the order of the calls.\<close>

definition processed_by :: "nat \<Rightarrow> ('a, 'b) state \<Rightarrow> 'a list" where
  "processed_by k s = map snd (filter (\<lambda>c. fst c = k) (calls s))"

text \<open>The items worker \<open>k\<close> has received, in the order of receipt.\<close>

definition received_by :: "nat \<Rightarrow> ('a, 'b) state \<Rightarrow> 'a list" where
  "received_by k s = processed_by k s @ pend_in (workers s ! k)"

text \<open>The items of \<open>xs\<close> at the positions \<open>i\<close> with \<open>i mod n = k\<close>, in the order of \<open>xs\<close>.\<close>

definition assigned :: "nat \<Rightarrow> nat \<Rightarrow> 'a list \<Rightarrow> 'a list" where
  "assigned n k xs = map snd (filter (\<lambda>p. fst p mod n = k) (enumerate 0 xs))"

definition fifo :: "nat \<Rightarrow> 'a list \<Rightarrow> ('a, 'b) state \<Rightarrow> bool" where
  "fifo n inputs s \<longleftrightarrow>
     (\<forall>k<n. received_by k s = assigned n k (take (next_input s) inputs))"

text \<open>With a single worker the results arrive in the order of the inputs.\<close>

definition in_order :: "'a list \<Rightarrow> ('a \<Rightarrow> 'b) \<Rightarrow> ('a, 'b) state \<Rightarrow> bool" where
  "in_order inputs process s \<longleftrightarrow>
     outputs s @ pend_out process (workers s ! 0) = map process (take (next_input s) inputs)"

text \<open>With no worker at all nothing is ever received, processed or collected.\<close>

definition idle :: "('a, 'b) state \<Rightarrow> bool" where
  "idle s \<longleftrightarrow>
     workers s = [] \<and> in_closed s = [] \<and> calls s = [] \<and> outputs s = [] \<and>
     (panicked s = None \<or> panicked s = Some IntegerDivideByZero)"

subsection \<open>Transformations and schedules of the examples\<close>

definition double :: "int \<Rightarrow> int" where
  "double x = 2 * x"



text \<open>One worker and three inputs.\<close>

definition schedule_1_3 :: "event list" where
  "schedule_1_3 =
     [Distribute, Call 0, Emit 0, Distribute, Call 0, Emit 0, Distribute, Call 0, Emit 0,
      CloseInput, Exit 0, CloseOutput, Return]"



section \<open>Properties of the steps\<close>

subsection \<open>Sums over the workers\<close>

text \<open>
  Replacing one worker changes a sum over the workers by the difference of the two summands.
\<close>

lemma sum_list_map_update:
  fixes f :: "'a \<Rightarrow> 'c::comm_monoid_add"
  shows "k < length xs \<Longrightarrow>
    sum_list (map f (xs[k := v])) + f (xs ! k) = sum_list (map f xs) + f v"
proof (induction xs arbitrary: k)
  case Nil
  then show ?case by simp
next
  case (Cons x xs)
  show ?case
  proof (cases k)
    case 0
    then show ?thesis by (simp add: ac_simps)
  next
    case (Suc j)
    with Cons.prems have "j < length xs" by simp
    from Cons.IH[OF this] show ?thesis using Suc
      by (simp add: ac_simps)
  qed
qed

lemma consistent_spawned: "consistent n inputs (spawned n)"
  by (simp add: consistent_def spawned_def sum_list_replicate)

lemma alive_update:
  "k < length ws \<Longrightarrow>
     sum_list (map alive (ws[k := w])) + alive (ws ! k) = sum_list (map alive ws) + alive w"
  by (rule sum_list_map_update)

lemma alive_pos: "k < length ws \<Longrightarrow> ws ! k \<noteq> WDone \<Longrightarrow> 0 < sum_list (map alive ws)"
proof -
  assume k: "k < length ws" and nd: "ws ! k \<noteq> WDone"
  have "alive (ws ! k) \<le> sum_list (map alive ws)"
    using k by (intro member_le_sum_list) (auto intro!: imageI nth_mem)
  moreover have "alive (ws ! k) = 1" using nd by (cases "ws ! k") auto
  ultimately show ?thesis by simp
qed

subsection \<open>The steps that can be taken in a consistent state\<close>

text \<open>
  In a consistent state no step panics: a step that is taken is one of the seven below, with
  the successor state as given.
\<close>

lemma fire_cases [consumes 3, case_names Distribute CloseInput Call Emit Exit CloseOutput Return]:
  assumes "fire n inputs process e s = Some s'" "consistent n inputs s" "0 < n \<or> inputs = []"
  obtains
    (Distribute) "e = Distribute" "next_input s < length inputs" "0 < n"
      "workers s ! (next_input s mod n) = WRecv"
      "s' = s\<lparr>workers := (workers s)[next_input s mod n := WCall (inputs ! next_input s)],
               next_input := next_input s + 1\<rparr>"
  | (CloseInput) "e = CloseInput" "next_input s = length inputs" "next_close s < n"
      "s' = s\<lparr>in_closed := (in_closed s)[next_close s := True], next_close := next_close s + 1\<rparr>"
  | (Call) k x where "e = Call k" "k < n" "workers s ! k = WCall x"
      "s' = s\<lparr>workers := (workers s)[k := WSend (process x)], calls := calls s @ [(k, x)]\<rparr>"
  | (Emit) k y where "e = Emit k" "k < n" "workers s ! k = WSend y" "\<not> returned s"
      "s' = s\<lparr>workers := (workers s)[k := WRecv], outputs := outputs s @ [y]\<rparr>"
  | (Exit) k where "e = Exit k" "k < n" "workers s ! k = WRecv" "in_closed s ! k"
      "s' = s\<lparr>workers := (workers s)[k := WDone], wg := wg s - 1\<rparr>"
  | (CloseOutput) "e = CloseOutput" "wg s = 0" "\<not> out_closed s" "s' = s\<lparr>out_closed := True\<rparr>"
  | (Return) "e = Return" "out_closed s" "\<not> returned s" "s' = s\<lparr>returned := True\<rparr>"
proof (cases e)
  case Distribute
  with assms have d: "distribute n inputs s = Some s'" by (simp add: fire_def split: if_splits)
  with assms(2,3) have "next_input s < length inputs \<and> 0 < n \<and>
      workers s ! (next_input s mod n) = WRecv \<and>
      s' = s\<lparr>workers := (workers s)[next_input s mod n := WCall (inputs ! next_input s)],
               next_input := next_input s + 1\<rparr>"
    by (auto simp: distribute_def consistent_def Let_def split: if_splits)
  with Distribute that(1) show ?thesis by blast
next
  case CloseInput
  with assms have d: "close_input inputs s = Some s'" by (simp add: fire_def split: if_splits)
  with assms(2) have "next_input s = length inputs \<and> next_close s < n \<and>
      s' = s\<lparr>in_closed := (in_closed s)[next_close s := True], next_close := next_close s + 1\<rparr>"
    by (auto simp: close_input_def consistent_def split: if_splits)
  with CloseInput that(2) show ?thesis by blast
next
  case (Call k)
  with assms have d: "call_process process k s = Some s'" by (simp add: fire_def split: if_splits)
  with assms(2) have "\<exists>x. k < n \<and> workers s ! k = WCall x \<and>
      s' = s\<lparr>workers := (workers s)[k := WSend (process x)], calls := calls s @ [(k, x)]\<rparr>"
    by (auto simp: call_process_def consistent_def split: if_splits worker.splits)
  with Call that(3) show ?thesis by blast
next
  case (Emit k)
  with assms have d: "emit k s = Some s'" by (simp add: fire_def split: if_splits)
  then obtain y where k: "k < length (workers s)" and w: "workers s ! k = WSend y"
    by (auto simp: emit_def split: if_splits worker.splits)
  from alive_pos[OF k] w assms(2) have "\<not> out_closed s"
    by (auto simp: consistent_def)
  with d k w assms(2) have "k < n \<and> \<not> returned s \<and>
      s' = s\<lparr>workers := (workers s)[k := WRecv], outputs := outputs s @ [y]\<rparr>"
    by (auto simp: emit_def consistent_def split: if_splits)
  with Emit w that(4) show ?thesis by blast
next
  case (Exit k)
  with assms have d: "worker_exit k s = Some s'" by (simp add: fire_def split: if_splits)
  then have k: "k < length (workers s)" and w: "workers s ! k = WRecv" and c: "in_closed s ! k"
    by (auto simp: worker_exit_def split: if_splits)
  from alive_pos[OF k] w assms(2) have "0 < wg s"
    by (auto simp: consistent_def)
  with d have "s' = s\<lparr>workers := (workers s)[k := WDone], wg := wg s - 1\<rparr>"
    by (auto simp: worker_exit_def split: if_splits)
  moreover from assms(2) k have "k < n" by (simp add: consistent_def)
  ultimately show ?thesis using Exit w c that(5) by blast
next
  case CloseOutput
  with assms have "close_output s = Some s'" by (simp add: fire_def split: if_splits)
  then have "wg s = 0 \<and> \<not> out_closed s \<and> s' = s\<lparr>out_closed := True\<rparr>"
    by (auto simp: close_output_def split: if_splits)
  with CloseOutput that(6) show ?thesis by blast
next
  case Return
  with assms have "return_outputs s = Some s'" by (simp add: fire_def split: if_splits)
  then have "out_closed s \<and> \<not> returned s \<and> s' = s\<lparr>returned := True\<rparr>"
    by (auto simp: return_outputs_def split: if_splits)
  with Return that(7) show ?thesis by blast
qed

subsection \<open>The control state stays consistent\<close>

lemma fire_consistent:
  assumes "fire n inputs process e s = Some s'" "consistent n inputs s" "0 < n \<or> inputs = []"
  shows "consistent n inputs s'"
proof -
  from assms(2) have len: "length (workers s) = n"
    by (simp add: consistent_def)
  from assms show ?thesis
  proof (cases rule: fire_cases)
    case Distribute
    with assms(2) alive_update[of "next_input s mod n" "workers s" "WCall (inputs ! next_input s)"]
    show ?thesis by (auto simp: consistent_def nth_list_update)
  next
    case CloseInput
    with assms(2) show ?thesis by (auto simp: consistent_def nth_list_update less_Suc_eq)
  next
    case (Call k x)
    with assms(2) alive_update[of k "workers s" "WSend (process x)"]
    show ?thesis by (auto simp: consistent_def nth_list_update)
  next
    case (Emit k y)
    with assms(2) alive_update[of k "workers s" WRecv]
    show ?thesis by (auto simp: consistent_def nth_list_update)
  next
    case (Exit k)
    with assms(2) alive_update[of k "workers s" WDone]
    show ?thesis by (auto simp: consistent_def nth_list_update)
  next
    case CloseOutput
    with assms(2) show ?thesis by (auto simp: consistent_def)
  next
    case Return
    with assms(2) show ?thesis by (auto simp: consistent_def)
  qed
qed

subsection \<open>Every step uses up one unit of the measure\<close>

lemma weight_update:
  "k < length ws \<Longrightarrow>
     sum_list (map weight (ws[k := w])) + weight (ws ! k) = sum_list (map weight ws) + weight w"
  by (rule sum_list_map_update)

lemma fire_remaining:
  assumes "fire n inputs process e s = Some s'" "consistent n inputs s" "0 < n \<or> inputs = []"
  shows "remaining inputs s = Suc (remaining inputs s')"
proof -
  from assms(2) have len: "length (workers s) = n" "length (in_closed s) = n"
    by (simp_all add: consistent_def)
  from assms show ?thesis
  proof (cases rule: fire_cases)
    case Distribute
    with len weight_update[of "next_input s mod n" "workers s" "WCall (inputs ! next_input s)"]
    show ?thesis by (simp add: remaining_def)
  next
    case CloseInput
    with len show ?thesis by (simp add: remaining_def)
  next
    case (Call k x)
    with len weight_update[of k "workers s" "WSend (process x)"]
    show ?thesis by (simp add: remaining_def)
  next
    case (Emit k y)
    with len weight_update[of k "workers s" WRecv]
    show ?thesis by (simp add: remaining_def)
  next
    case (Exit k)
    with len weight_update[of k "workers s" WDone]
    show ?thesis by (simp add: remaining_def)
  next
    case CloseOutput
    then show ?thesis by (simp add: remaining_def)
  next
    case Return
    then show ?thesis by (simp add: remaining_def)
  qed
qed

subsection \<open>Every item is accounted for\<close>

lemma pend_out_update:
  "k < length ws \<Longrightarrow>
     sum_list (map (\<lambda>w. mset (pend_out process w)) (ws[k := w])) + mset (pend_out process (ws ! k))
       = sum_list (map (\<lambda>w. mset (pend_out process w)) ws) + mset (pend_out process w)"
  by (rule sum_list_map_update)

lemma pend_in_update:
  "k < length ws \<Longrightarrow>
     sum_list (map (\<lambda>w. mset (pend_in w)) (ws[k := w])) + mset (pend_in (ws ! k))
       = sum_list (map (\<lambda>w. mset (pend_in w)) ws) + mset (pend_in w)"
  by (rule sum_list_map_update)

lemma sum_list_replicate_empty: "sum_list (replicate n ({#} :: 'c multiset)) = {#}"
  by (induction n) simp_all

lemma accounted_spawned: "accounted inputs process (spawned n)"
  by (simp add: accounted_def spawned_def sum_list_replicate_empty)

lemma fire_accounted:
  assumes "fire n inputs process e s = Some s'" "consistent n inputs s" "0 < n \<or> inputs = []"
    and acc: "accounted inputs process s"
  shows "accounted inputs process s'"
proof -
  from assms(2) have len: "length (workers s) = n"
    by (simp add: consistent_def)
  from assms(1-3) show ?thesis
  proof (cases rule: fire_cases)
    case Distribute
    with len acc
      pend_out_update[of "next_input s mod n" "workers s" process "WCall (inputs ! next_input s)"]
      pend_in_update[of "next_input s mod n" "workers s" "WCall (inputs ! next_input s)"]
    show ?thesis by (simp add: accounted_def take_Suc_conv_app_nth)
  next
    case CloseInput
    with acc show ?thesis by (simp add: accounted_def)
  next
    case (Call k x)
    let ?ws = "(workers s)[k := WSend (process x)]"
    from Call len pend_out_update[of k "workers s" process "WSend (process x)"]
    have o: "sum_list (map (\<lambda>w. mset (pend_out process w)) ?ws)
        = sum_list (map (\<lambda>w. mset (pend_out process w)) (workers s))"
      by simp
    from Call len pend_in_update[of k "workers s" "WSend (process x)"]
    have i: "sum_list (map (\<lambda>w. mset (pend_in w)) ?ws) + {#x#}
        = sum_list (map (\<lambda>w. mset (pend_in w)) (workers s))"
      by simp
    from acc have "mset (map snd (calls s)) + (sum_list (map (\<lambda>w. mset (pend_in w)) ?ws) + {#x#})
        = mset (take (next_input s) inputs)"
      unfolding i by (simp add: accounted_def)
    then have "mset (map snd (calls s @ [(k, x)])) + sum_list (map (\<lambda>w. mset (pend_in w)) ?ws)
        = mset (take (next_input s) inputs)"
      by (simp add: ac_simps)
    with acc o Call show ?thesis by (simp add: accounted_def)
  next
    case (Emit k y)
    let ?ws = "(workers s)[k := WRecv]"
    from Emit len pend_in_update[of k "workers s" WRecv]
    have i: "sum_list (map (\<lambda>w. mset (pend_in w)) ?ws)
        = sum_list (map (\<lambda>w. mset (pend_in w)) (workers s))"
      by simp
    from Emit len pend_out_update[of k "workers s" process WRecv]
    have o: "sum_list (map (\<lambda>w. mset (pend_out process w)) ?ws) + {#y#}
        = sum_list (map (\<lambda>w. mset (pend_out process w)) (workers s))"
      by simp
    from acc have "mset (outputs s) + (sum_list (map (\<lambda>w. mset (pend_out process w)) ?ws) + {#y#})
        = mset (map process (take (next_input s) inputs))"
      unfolding o by (simp add: accounted_def)
    then have "mset (outputs s @ [y]) + sum_list (map (\<lambda>w. mset (pend_out process w)) ?ws)
        = mset (map process (take (next_input s) inputs))"
      by (simp add: ac_simps)
    with acc i Emit show ?thesis by (simp add: accounted_def)
  next
    case (Exit k)
    with len acc pend_out_update[of k "workers s" process WDone]
      pend_in_update[of k "workers s" WDone]
    show ?thesis by (simp add: accounted_def)
  next
    case CloseOutput
    with acc show ?thesis by (simp add: accounted_def)
  next
    case Return
    with acc show ?thesis by (simp add: accounted_def)
  qed
qed

subsection \<open>Every worker receives its items in input order\<close>

lemma assigned_Nil: "assigned n k [] = []"
  by (simp add: assigned_def)

lemma assigned_snoc:
  "assigned n k (xs @ [x]) = assigned n k xs @ (if length xs mod n = k then [x] else [])"
  by (simp add: assigned_def enumerate_append_eq)

lemma fifo_spawned: "fifo n inputs (spawned n)"
  by (simp add: fifo_def received_by_def processed_by_def spawned_def assigned_Nil)

lemma fire_fifo:
  assumes "fire n inputs process e s = Some s'" "consistent n inputs s" "0 < n \<or> inputs = []"
    and ff: "fifo n inputs s"
  shows "fifo n inputs s'"
proof -
  from assms(2) have len: "length (workers s) = n"
    by (simp add: consistent_def)
  from assms(1-3) show ?thesis
  proof (cases rule: fire_cases)
    case Distribute
    let ?c = "next_input s mod n"
    from Distribute have c: "?c < n" by simp
    with ff Distribute(4) have "processed_by ?c s = assigned n ?c (take (next_input s) inputs)"
      by (auto simp: fifo_def received_by_def)
    with len ff Distribute show ?thesis
      by (auto simp: fifo_def received_by_def processed_by_def take_Suc_conv_app_nth
          assigned_snoc nth_list_update)
  next
    case CloseInput
    with ff show ?thesis by (simp add: fifo_def received_by_def processed_by_def)
  next
    case (Call k x)
    with len ff show ?thesis
      by (auto simp: fifo_def received_by_def processed_by_def nth_list_update)
  next
    case (Emit k y)
    with len ff show ?thesis
      by (auto simp: fifo_def received_by_def processed_by_def nth_list_update)
  next
    case (Exit k)
    with len ff show ?thesis
      by (auto simp: fifo_def received_by_def processed_by_def nth_list_update)
  next
    case CloseOutput
    with ff show ?thesis by (simp add: fifo_def received_by_def processed_by_def)
  next
    case Return
    with ff show ?thesis by (simp add: fifo_def received_by_def processed_by_def)
  qed
qed

subsection \<open>A single worker keeps the input order\<close>

lemma in_order_spawned: "in_order inputs process (spawned 1)"
  by (simp add: in_order_def spawned_def)

lemma fire_in_order:
  assumes "fire 1 inputs process e s = Some s'" "consistent 1 inputs s"
    and io: "in_order inputs process s"
  shows "in_order inputs process s'"
proof -
  from assms(2) have len: "length (workers s) = 1"
    by (simp add: consistent_def)
  have "0 < (1::nat) \<or> inputs = []" by simp
  with assms(1,2) show ?thesis
  proof (cases rule: fire_cases)
    case Distribute
    with len io show ?thesis
      by (simp add: in_order_def take_Suc_conv_app_nth)
  next
    case CloseInput
    with io show ?thesis by (simp add: in_order_def)
  next
    case (Call k x)
    with len io show ?thesis by (simp add: in_order_def)
  next
    case (Emit k y)
    with len io show ?thesis by (simp add: in_order_def)
  next
    case (Exit k)
    with len io show ?thesis by (simp add: in_order_def)
  next
    case CloseOutput
    with io show ?thesis by (simp add: in_order_def)
  next
    case Return
    with io show ?thesis by (simp add: in_order_def)
  qed
qed

subsection \<open>Schedules\<close>

lemma run_consistent:
  assumes "run n inputs process es s = Some s'" "consistent n inputs s" "0 < n \<or> inputs = []"
  shows "consistent n inputs s'"
  using assms
proof (induction es arbitrary: s)
  case Nil
  then show ?case by simp
next
  case (Cons e es)
  then obtain t where t: "fire n inputs process e s = Some t" and r: "run n inputs process es t = Some s'"
    by (auto split: option.splits)
  from fire_consistent[OF t Cons.prems(2,3)] Cons.IH[OF r] Cons.prems(3) show ?case by blast
qed

lemma run_remaining:
  assumes "run n inputs process es s = Some s'" "consistent n inputs s" "0 < n \<or> inputs = []"
  shows "remaining inputs s = length es + remaining inputs s'"
  using assms
proof (induction es arbitrary: s)
  case Nil
  then show ?case by simp
next
  case (Cons e es)
  then obtain t where t: "fire n inputs process e s = Some t" and r: "run n inputs process es t = Some s'"
    by (auto split: option.splits)
  from fire_consistent[OF t Cons.prems(2,3)] have "consistent n inputs t" .
  from Cons.IH[OF r this Cons.prems(3)] fire_remaining[OF t Cons.prems(2,3)]
  show ?case by simp
qed

lemma run_accounted:
  assumes "run n inputs process es s = Some s'" "consistent n inputs s" "0 < n \<or> inputs = []"
    "accounted inputs process s"
  shows "accounted inputs process s'"
  using assms
proof (induction es arbitrary: s)
  case Nil
  then show ?case by simp
next
  case (Cons e es)
  then obtain t where t: "fire n inputs process e s = Some t" and r: "run n inputs process es t = Some s'"
    by (auto split: option.splits)
  from fire_consistent[OF t Cons.prems(2,3)] have c: "consistent n inputs t" .
  from fire_accounted[OF t Cons.prems(2,3,4)] have "accounted inputs process t" .
  from Cons.IH[OF r c Cons.prems(3) this] show ?case .
qed

lemma run_fifo:
  assumes "run n inputs process es s = Some s'" "consistent n inputs s" "0 < n \<or> inputs = []"
    "fifo n inputs s"
  shows "fifo n inputs s'"
  using assms
proof (induction es arbitrary: s)
  case Nil
  then show ?case by simp
next
  case (Cons e es)
  then obtain t where t: "fire n inputs process e s = Some t" and r: "run n inputs process es t = Some s'"
    by (auto split: option.splits)
  from fire_consistent[OF t Cons.prems(2,3)] have c: "consistent n inputs t" .
  from fire_fifo[OF t Cons.prems(2,3,4)] have "fifo n inputs t" .
  from Cons.IH[OF r c Cons.prems(3) this] show ?case .
qed

lemma run_in_order:
  assumes "run 1 inputs process es s = Some s'" "consistent 1 inputs s"
    "in_order inputs process s"
  shows "in_order inputs process s'"
  using assms
proof (induction es arbitrary: s)
  case Nil
  then show ?case by simp
next
  case (Cons e es)
  then obtain t where t: "fire 1 inputs process e s = Some t" and r: "run 1 inputs process es t = Some s'"
    by (auto split: option.splits)
  have "0 < (1::nat) \<or> inputs = []" by simp
  from fire_consistent[OF t Cons.prems(2) this] have c: "consistent 1 inputs t" .
  from fire_in_order[OF t Cons.prems(2,3)] have "in_order inputs process t" .
  from Cons.IH[OF r c this] show ?case .
qed

subsection \<open>When the output channel is closed\<close>

lemma remaining_spawned: "remaining inputs (spawned n) = 3 * length inputs + 2 * n + 2"
  by (simp add: remaining_def spawned_def sum_list_replicate)

lemma alive_zero_done: "sum_list (map alive ws) = 0 \<Longrightarrow> w \<in> set ws \<Longrightarrow> w = WDone"
  by (cases w) auto

lemma closed_all_done:
  assumes "consistent n inputs s" "0 < n \<or> inputs = []" "out_closed s"
  shows "workers s = replicate n WDone" "in_closed s = replicate n True"
    "next_input s = length inputs" "next_close s = n" "wg s = 0"
proof -
  from assms(1,3) have wg0: "wg s = 0" and len: "length (workers s) = n" "length (in_closed s) = n"
    unfolding consistent_def by blast+
  from assms(1) have "wg s = int (sum_list (map alive (workers s)))" by (simp add: consistent_def)
  with wg0 have "sum_list (map alive (workers s)) = 0" by linarith
  then have alld: "\<forall>w \<in> set (workers s). w = WDone" by (blast intro: alive_zero_done)
  from alld len show ws: "workers s = replicate n WDone"
    by (auto simp: list_eq_iff_nth_eq)
  from assms(1) ws have cl: "\<forall>k<n. k < next_close s" by (auto simp: consistent_def)
  with assms(1) show nc: "next_close s = n"
    by (cases n) (auto simp: consistent_def)
  from assms(1) cl len show "in_closed s = replicate n True"
    by (auto simp: consistent_def list_eq_iff_nth_eq)
  from assms(1,2) nc show "next_input s = length inputs"
    by (auto simp: consistent_def)
  from wg0 show "wg s = 0" .
qed





lemma closed_in_order:
  assumes "consistent 1 inputs s" "out_closed s" "in_order inputs process s"
  shows "outputs s = map process inputs"
proof -
  have "0 < (1::nat) \<or> inputs = []" by simp
  from closed_all_done(1,3)[OF assms(1) this assms(2)] assms(3)
  show ?thesis by (simp add: in_order_def)
qed

subsection \<open>No deadlock, and nothing left to run after the return\<close>

lemma all_events_iff:
  "e \<in> set (all_events n) \<longleftrightarrow>
     (case e of Call k \<Rightarrow> k < n | Emit k \<Rightarrow> k < n | Exit k \<Rightarrow> k < n | _ \<Rightarrow> True)"
  by (cases e) (auto simp: all_events_def)

lemma busy_worker_can_step:
  assumes c: "consistent n inputs s" and k: "k < n" and nr: "\<not> returned s"
    and w: "workers s ! k \<noteq> WRecv" "workers s ! k \<noteq> WDone"
  shows "\<exists>e \<in> set (all_events n). fire n inputs process e s \<noteq> None"
proof (cases "workers s ! k")
  case (WCall x)
  with c k have "fire n inputs process (Call k) s \<noteq> None"
    by (simp add: fire_def call_process_def consistent_def)
  moreover from k have "Call k \<in> set (all_events n)" by (simp add: all_events_iff)
  ultimately show ?thesis by blast
next
  case (WSend y)
  with c k nr have "fire n inputs process (Emit k) s \<noteq> None"
    by (simp add: fire_def emit_def consistent_def)
  moreover from k have "Emit k \<in> set (all_events n)" by (simp add: all_events_iff)
  ultimately show ?thesis by blast
qed (use w in simp_all)

lemma progress:
  assumes c: "consistent n inputs s" and v: "0 < n \<or> inputs = []" and nr: "\<not> returned s"
  shows "\<exists>e \<in> set (all_events n). fire n inputs process e s \<noteq> None"
proof -
  from c have p: "panicked s = None" and len: "length (workers s) = n" "length (in_closed s) = n"
    unfolding consistent_def by blast+
  show ?thesis
  proof (cases "out_closed s")
    case True
    with p nr have "fire n inputs process Return s \<noteq> None"
      by (simp add: fire_def return_outputs_def)
    then show ?thesis by (auto simp: all_events_iff)
  next
    case oc: False
    show ?thesis
    proof (cases "wg s = 0")
      case True
      with p oc have "fire n inputs process CloseOutput s \<noteq> None"
        by (simp add: fire_def close_output_def)
      then show ?thesis by (auto simp: all_events_iff)
    next
      case False
      from c have "wg s = int (sum_list (map alive (workers s)))"
        unfolding consistent_def by blast
      with False have "sum_list (map alive (workers s)) \<noteq> 0" by simp
      then have "\<not> (\<forall>w \<in> set (workers s). alive w = 0)" by simp
      then obtain w where "w \<in> set (workers s)" "alive w \<noteq> 0" by blast
      then have "w \<in> set (workers s)" "w \<noteq> WDone" by auto
      with len obtain k where k: "k < n" and nd: "workers s ! k \<noteq> WDone"
        by (auto simp: in_set_conv_nth)
      show ?thesis
      proof (cases "workers s ! k = WRecv")
        case False
        from busy_worker_can_step[OF c k nr False nd] show ?thesis .
      next
        case rk: True
        show ?thesis
        proof (cases "in_closed s ! k")
          case True
          from alive_pos[of k "workers s"] nd k len c have "0 < wg s"
            by (simp add: consistent_def)
          with p k len rk True have "fire n inputs process (Exit k) s \<noteq> None"
            by (simp add: fire_def worker_exit_def)
          moreover from k have "Exit k \<in> set (all_events n)" by (simp add: all_events_iff)
          ultimately show ?thesis by blast
        next
          case open_k: False
          with c k have nc: "next_close s \<le> k" by (auto simp: consistent_def)
          show ?thesis
          proof (cases "next_input s < length inputs")
            case False
            from c nc k have "\<not> in_closed s ! next_close s" by (auto simp: consistent_def)
            with p False nc k len have "fire n inputs process CloseInput s \<noteq> None"
              by (simp add: fire_def close_input_def)
            then show ?thesis by (auto simp: all_events_iff)
          next
            case True
            let ?c = "next_input s mod n"
            from k have cn: "?c < n" by simp
            from c True have nc0: "next_close s = 0" by (simp add: consistent_def)
            with c cn have open_c: "\<not> in_closed s ! ?c" and nd_c: "workers s ! ?c \<noteq> WDone"
              by (auto simp: consistent_def)
            show ?thesis
            proof (cases "workers s ! ?c = WRecv")
              case True
              with p \<open>next_input s < length inputs\<close> k open_c
              have "fire n inputs process Distribute s \<noteq> None"
                by (simp add: fire_def distribute_def Let_def)
              then show ?thesis by (auto simp: all_events_iff)
            next
              case False
              from busy_worker_can_step[OF c cn nr False nd_c] show ?thesis .
            qed
          qed
        qed
      qed
    qed
  qed
qed



section \<open>Properties of whole calls\<close>

lemma Execute_spawned:
  assumes "0 \<le> N" "N \<le> makeslice_max_len" "N \<le> int max_workers"
  shows "Execute max_workers N inputs process es
    = Inr (run (nat N) inputs process es (spawned (nat N)))"
  using assms by (simp add: Execute_def Execute_start_def)

lemma Execute_Inr:
  assumes "Execute max_workers N inputs process es = Inr r"
  shows "0 \<le> N" "N \<le> makeslice_max_len" "N \<le> int max_workers"
    "r = run (nat N) inputs process es (spawned (nat N))"
  using assms by (auto simp: Execute_def Execute_start_def split: if_splits)

lemma Execute_negative:
  "N < 0 \<Longrightarrow> Execute max_workers N inputs process es = Inl MakesliceLenOutOfRange"
  by (simp add: Execute_def Execute_start_def)


lemma Execute_reaches:
  assumes "0 < N \<or> inputs = []" "Execute max_workers N inputs process es = Inr (Some s)"
  shows "consistent (nat N) inputs s" "accounted inputs process s" "fifo (nat N) inputs s"
    "length es + remaining inputs s = 3 * length inputs + 2 * nat N + 2"
proof -
  from Execute_Inr(4)[OF assms(2)]
  have r: "run (nat N) inputs process es (spawned (nat N)) = Some s" by simp
  from assms(1) have v: "0 < nat N \<or> inputs = []" by auto
  note c = consistent_spawned[of "nat N" inputs]
  from run_consistent[OF r c v] show "consistent (nat N) inputs s" .
  from run_accounted[OF r c v accounted_spawned] show "accounted inputs process s" .
  from run_fifo[OF r c v fifo_spawned] show "fifo (nat N) inputs s" .
  from run_remaining[OF r c v] show "length es + remaining inputs s = 3 * length inputs + 2 * nat N + 2"
    by (simp add: remaining_spawned)
qed



subsection \<open>Positions of the assigned items, and calls without workers\<close>

lemma fire_idle:
  assumes "fire 0 inputs process e s = Some s'" "idle s"
  shows "idle s'"
  using assms
  by (cases e)
    (auto simp: fire_def idle_def distribute_def close_input_def call_process_def emit_def
      worker_exit_def close_output_def return_outputs_def split: if_splits)

lemma run_idle:
  assumes "run 0 inputs process es s = Some s'" "idle s"
  shows "idle s'"
  using assms
proof (induction es arbitrary: s)
  case Nil
  then show ?case by simp
next
  case (Cons e es)
  then obtain t where t: "fire 0 inputs process e s = Some t" and r: "run 0 inputs process es t = Some s'"
    by (auto split: option.splits)
  from Cons.IH[OF r fire_idle[OF t Cons.prems(2)]] show ?case .
qed

lemma idle_spawned: "idle (spawned 0)"
  by (simp add: idle_def spawned_def)




lemma Execute_zero_workers_idle:
  assumes "Execute max_workers 0 inputs process es = Inr (Some s)"
  shows "calls s = []" "outputs s = []"
    "panicked s = None \<or> panicked s = Some IntegerDivideByZero"
proof -
  from Execute_Inr(4)[OF assms] have "run 0 inputs process es (spawned 0) = Some s" by simp
  from run_idle[OF this idle_spawned]
  show "calls s = []" "outputs s = []" "panicked s = None \<or> panicked s = Some IntegerDivideByZero"
    by (simp_all add: idle_def)
qed

subsection \<open>The example schedules\<close>


lemma run_1_3:
  "Execute 16 1 [1, 2, 3] double schedule_1_3 =
     Inr (Some \<lparr>workers = [WDone], in_closed = [True], next_input = 3,
       next_close = 1, wg = 0, out_closed = True, outputs = [2, 4, 6],
       returned = True, calls = [(0, 1), (0, 2), (0, 3)], panicked = None\<rparr>)"
  by code_simp



lemma run_0_0:
  "Execute max_workers 0 ([] :: 'a list) (process :: 'a \<Rightarrow> 'b) [CloseOutput, Return] =
     Inr (Some \<lparr>workers = [], in_closed = [], next_input = 0, next_close = 0,
       wg = 0, out_closed = True, outputs = [], returned = True,
       calls = [], panicked = None\<rparr>)"
  by (simp add: Execute_def Execute_start_def makeslice_max_len_def spawned_def fire_def
      close_output_def return_outputs_def)


section \<open>The claims\<close>






text \<open>
  C4. With one worker the call returns the results in the order of the inputs, under every
  schedule; so two runs on the same inputs return the same sequence.
\<close>

theorem Execute_single_worker:
  "(\<forall>es s. Execute max_workers 1 inputs process es = Inr (Some s) \<and> returned s
      \<longrightarrow> outputs s = map process inputs) \<and>
   (\<forall>es s es' s'. Execute max_workers 1 inputs process es = Inr (Some s) \<and> returned s \<and>
        Execute max_workers 1 inputs process es' = Inr (Some s') \<and> returned s'
      \<longrightarrow> outputs s = outputs s')"
proof -
  have one: "outputs s = map process inputs"
    if "Execute max_workers 1 inputs process es = Inr (Some s)" "returned s" for es s
  proof -
    from Execute_Inr(4)[OF that(1)] have r: "run 1 inputs process es (spawned 1) = Some s"
      by simp
    have v: "0 < (1::nat) \<or> inputs = []" by simp
    from run_consistent[OF r consistent_spawned v] have c: "consistent 1 inputs s" .
    from run_in_order[OF r consistent_spawned in_order_spawned] have io: "in_order inputs process s" .
    from c that(2) have "out_closed s" by (simp add: consistent_def)
    from closed_in_order[OF c this io] show ?thesis .
  qed
  then show ?thesis by metis
qed

theorem Execute_single_worker_witness:
  "\<exists>s. Execute 16 1 [1, 2, 3] double schedule_1_3 = Inr (Some s) \<and> returned s \<and>
     outputs s = [2, 4, 6]"
  using Execute_single_worker[of 16 "[1, 2, 3]" double] run_1_3
  by (simp add: double_def)














text \<open>
  C10. \<open>Execute(0, [], transform)\<close>: the set-up does not panic; under the schedule in which
  the output channel is closed and the caller then leaves its loop, the call returns the empty
  sequence; and under every schedule nothing panics, nothing is collected, the transformation
  is never evaluated, and the call can go on until it has returned.
\<close>

theorem Execute_zero_workers_no_inputs:
  "Execute max_workers 0 [] process [CloseOutput, Return] =
     Inr (Some \<lparr>workers = [], in_closed = [], next_input = 0, next_close = 0,
       wg = 0, out_closed = True, outputs = [], returned = True,
       calls = [], panicked = None\<rparr>) \<and>
   (\<forall>es. \<exists>r. Execute max_workers 0 [] process es = Inr r) \<and>
   (\<forall>es s. Execute max_workers 0 [] process es = Inr (Some s) \<longrightarrow>
      panicked s = None \<and> outputs s = [] \<and> calls s = [] \<and>
      (\<not> returned s \<longrightarrow> (\<exists>e \<in> set (all_events 0). fire 0 [] process e s \<noteq> None)))"
proof (intro conjI allI impI)
  show "Execute max_workers 0 [] process [CloseOutput, Return] =
     Inr (Some \<lparr>workers = [], in_closed = [], next_input = 0, next_close = 0,
       wg = 0, out_closed = True, outputs = [], returned = True,
       calls = [], panicked = None\<rparr>)"
    by (rule run_0_0)
  show "\<exists>r. Execute max_workers 0 [] process es = Inr r" for es
    by (simp add: Execute_spawned makeslice_max_len_def)
  fix es s
  assume e: "Execute max_workers 0 [] process es = Inr (Some s)"
  have N: "(0::int) < 0 \<or> ([] :: 'a list) = []" by simp
  note r = Execute_reaches[OF N e]
  from r(1) show "panicked s = None" by (simp add: consistent_def)
  from r(2) show "outputs s = []" "calls s = []" by (simp_all add: accounted_def)
  {
    assume "\<not> returned s"
    from progress[OF r(1) _ this, of process]
    show "\<exists>e \<in> set (all_events 0). fire 0 [] process e s \<noteq> None" by simp
  }
qed

theorem Execute_zero_workers_no_inputs_witness:
  "\<exists>s. Execute 16 0 [] double [CloseOutput, Return] = Inr (Some s) \<and> returned s \<and>
     panicked s = None \<and> outputs s = [] \<and> calls s = []"
  using Execute_zero_workers_no_inputs[of 16 double] by simp

text \<open>
  C3. What \<open>Execute(0, [1,2,3], double)\<close> does in place of reporting a failure. There is no
  check of the worker count. When the output channel is closed and the caller leaves its loop
  before the distributor has run, the call returns the empty sequence: none of the three
  inputs has been processed and no failure is reported. When the distributor runs, before or
  after that return, its \<^verbatim>\<open>i % numOfRoutines\<close> (line 34) divides by zero and the program
  panics.
\<close>

theorem Execute_zero_workers_returns:
  "Execute max_workers 0 [1, 2, 3] double [CloseOutput, Return] =
     Inr (Some \<lparr>workers = [], in_closed = [], next_input = 0, next_close = 0,
       wg = 0, out_closed = True, outputs = [], returned = True,
       calls = [], panicked = None\<rparr>) \<and>
   Execute max_workers 0 [1, 2, 3] double [Distribute] =
     Inr (Some \<lparr>workers = [], in_closed = [], next_input = 0, next_close = 0,
       wg = 0, out_closed = False, outputs = [], returned = False,
       calls = [], panicked = Some IntegerDivideByZero\<rparr>) \<and>
   Execute max_workers 0 [1, 2, 3] double [CloseOutput, Return, Distribute] =
     Inr (Some \<lparr>workers = [], in_closed = [], next_input = 0, next_close = 0,
       wg = 0, out_closed = True, outputs = [], returned = True,
       calls = [], panicked = Some IntegerDivideByZero\<rparr>)"
  by (simp add: Execute_def Execute_start_def makeslice_max_len_def spawned_def fire_def
      close_output_def return_outputs_def distribute_def)

end
